theory Spec2Isabelle
  imports Complex_Main "HOL-Library.Word"
begin

unbundle bit_operations_syntax

section \<open>The LED matrix controller (app.py)\<close>

text \<open>
  The program drives an 8x8 LED matrix over a serial line. Matrices are numpy integer
  arrays; here a matrix is the list of its rows, each row the list of its cells, and a
  cell is the integer the array holds. Python's own integers (the row byte that
  \<open>send_frame\<close> builds) are \<open>int\<close>. The calls into numpy, PIL and pyserial are not code
  of the program: each is modelled by what it returns to the program.
\<close>

subsection \<open>Errors\<close>

datatype error = ValueError

subsection \<open>\<open>send_frame\<close>: the wire frame\<close>

type_synonym matrix = "int list list"

text \<open>
  \<open>np.array(matrix, dtype=int)\<close> followed by \<open>.shape\<close>. An empty sequence has shape
  \<open>(0,)\<close>, rows of one length give \<open>(rows, cols)\<close>, and rows of different lengths make
  \<open>np.array\<close> raise \<open>ValueError\<close>, which is \<open>None\<close> here.
\<close>

fun np_shape :: "matrix \<Rightarrow> nat list option" where
  "np_shape [] = Some [0]"
| "np_shape (row # rows) =
     (if \<forall>other \<in> set rows. length other = length row
      then Some [Suc (length rows), length row] else None)"

text \<open>
  The body of the inner loop, lines 40 to 43: a truthy cell sets bit \<open>7 - c\<close>.
  \<open>matrix[r, c]\<close> is read only after the shape check, so \<open>c\<close> is in range.
\<close>

definition set_cell_bit :: "int list \<Rightarrow> nat \<Rightarrow> int \<Rightarrow> int" where
  "set_cell_bit row c byte =
     (if row ! c \<noteq> 0 then byte OR push_bit (7 - c) 1 else byte)"

text \<open>The inner loop \<open>for c in range(8)\<close>, started at \<open>byte = 0\<close>.\<close>

definition row_byte :: "int list \<Rightarrow> int" where
  "row_byte row = fold (set_cell_bit row) [0..<8] 0"

text \<open>\<open>bytearray.append\<close> takes an integer in \<open>range(256)\<close> and raises \<open>ValueError\<close> otherwise.\<close>

definition bytearray_append :: "int list \<Rightarrow> int \<Rightarrow> error + int list" where
  "bytearray_append data b =
     (if 0 \<le> b \<and> b < 256 then Inr (data @ [b]) else Inl ValueError)"

text \<open>The outer loop \<open>for r in range(8)\<close>: one \<open>data.append(byte)\<close> for each row.\<close>

fun append_rows :: "matrix \<Rightarrow> nat list \<Rightarrow> int list \<Rightarrow> error + int list" where
  "append_rows m [] data = Inr data"
| "append_rows m (r # rs) data =
     (case bytearray_append data (row_byte (m ! r)) of
        Inl e \<Rightarrow> Inl e
      | Inr data' \<Rightarrow> append_rows m rs data')"

text \<open>
  Lines 30 to 44 of \<open>send_frame\<close>: the conversion to an array, the shape check and the
  packing of \<open>data\<close>, the bytes that are then handed to \<open>ser.write\<close>.
\<close>

definition send_frame_data :: "matrix \<Rightarrow> error + int list" where
  "send_frame_data m =
     (case np_shape m of
        None \<Rightarrow> Inl ValueError
      | Some shape \<Rightarrow>
          if shape \<noteq> [8, 8] then Inl ValueError
          else (case bytearray_append [] 0xAA of
                  Inl e \<Rightarrow> Inl e
                | Inr data \<Rightarrow> append_rows m [0..<8] data))"

text \<open>
  The serial handle as \<open>send_frame\<close> sees it: whether the port is open, and whether
  \<open>ser.write\<close> raises. The effects of a call are the frames put on the wire and the
  messages shown by \<open>st.error\<close>. The message of a failed write is recorded without the
  text of the exception that the program appends to it.
\<close>

record serial =
  is_open :: bool
  write_raises :: bool

record effects =
  wire :: "int list list"
  st_errors :: "string list"

definition st_error :: "string \<Rightarrow> effects \<Rightarrow> effects" where
  "st_error msg fx = fx\<lparr>st_errors := st_errors fx @ [msg]\<rparr>"

definition ser_write :: "serial \<Rightarrow> int list \<Rightarrow> effects \<Rightarrow> effects" where
  "ser_write ser data fx =
     (if write_raises ser then st_error ''Error writing to serial'' fx
      else fx\<lparr>wire := wire fx @ [data]\<rparr>)"

text \<open>
  \<open>send_frame(ser, matrix)\<close>. \<open>ser\<close> is \<open>None\<close> or a handle. The guard of line 26 returns
  before the matrix is looked at; the \<open>ValueError\<close> of the shape check leaves the
  function; an exception of \<open>ser.write\<close> is caught and reported.
\<close>

definition send_frame :: "serial option \<Rightarrow> matrix \<Rightarrow> effects \<Rightarrow> error + effects" where
  "send_frame ser m fx =
     (case ser of
        None \<Rightarrow> Inr (st_error ''Serial not connected. Please connect in the sidebar.'' fx)
      | Some s \<Rightarrow>
          if \<not> is_open s
          then Inr (st_error ''Serial not connected. Please connect in the sidebar.'' fx)
          else (case send_frame_data m of
                  Inl e \<Rightarrow> Inl e
                | Inr data \<Rightarrow> Inr (ser_write s data fx)))"

text \<open>A matrix of the data model: every cell is 0 or 1.\<close>

definition binary :: "matrix \<Rightarrow> bool" where
  "binary m \<longleftrightarrow> (\<forall>row \<in> set m. \<forall>v \<in> set row. v = 0 \<or> v = 1)"

text \<open>
  A matrix whose cells are integers of the array: \<open>dtype=int\<close> is the signed 64-bit
  integer. For a cell outside this range the conversion of line 30 raises
  \<open>OverflowError\<close> instead of giving an array; \<open>np_shape\<close> and \<open>send_frame_data\<close> speak
  of the matrices whose cells are in the range.
\<close>

definition int64_cells :: "matrix \<Rightarrow> bool" where
  "int64_cells m \<longleftrightarrow> (\<forall>row \<in> set m. \<forall>v \<in> set row. - (2 ^ 63) \<le> v \<and> v < 2 ^ 63)"

text \<open>The matrix with every nonzero cell replaced by 1.\<close>

definition binarize :: "matrix \<Rightarrow> matrix" where
  "binarize m = map (map (\<lambda>v. if v \<noteq> 0 then 1 else 0)) m"

text \<open>
  Modelled from the spec: the decoder of section 8, which the program does not have (the
  device reads the frame). It reads bit \<open>7 - c\<close> of row byte \<open>r\<close> as cell \<open>(r, c)\<close>, for
  the eight bytes after the header.
\<close>

definition unpack_row :: "int \<Rightarrow> int list" where
  "unpack_row b = map (\<lambda>c. if bit b (7 - c) then 1 else 0) [0..<8]"

definition unpack_frame :: "int list \<Rightarrow> matrix" where
  "unpack_frame frame = map unpack_row (tl frame)"

subsection \<open>\<open>downsample_16_to_8\<close>\<close>

text \<open>A slice \<open>xs[i:j]\<close> with \<open>0 \<le> i\<close>: numpy and Python cut it to the sequence's end.\<close>

definition slice :: "nat \<Rightarrow> nat \<Rightarrow> 'a list \<Rightarrow> 'a list" where
  "slice i j xs = take (j - i) (drop i xs)"

text \<open>\<open>mat16[r*2:(r+1)*2, c*2:(c+1)*2]\<close>: the rows of the slice, each cut to the columns.\<close>

definition block :: "matrix \<Rightarrow> nat \<Rightarrow> nat \<Rightarrow> matrix" where
  "block mat16 r c = map (slice (c * 2) ((c + 1) * 2)) (slice (r * 2) ((r + 1) * 2) mat16)"

text \<open>
  \<open>block.sum()\<close>: the sum of all cells, in the 64-bit signed integers of the array, so
  taken modulo \<open>2 ^ 64\<close> into the signed range.
\<close>

definition np_sum :: "matrix \<Rightarrow> int" where
  "np_sum a = signed_take_bit 63 (sum_list (concat a))"

text \<open>\<open>out[r, c] = v\<close> on an array that has the cell.\<close>

definition set_item :: "matrix \<Rightarrow> nat \<Rightarrow> nat \<Rightarrow> int \<Rightarrow> matrix" where
  "set_item out r c v = out[r := (out ! r)[c := v]]"

definition downsample_cell :: "matrix \<Rightarrow> nat \<Rightarrow> nat \<Rightarrow> int" where
  "downsample_cell mat16 r c = (if np_sum (block mat16 r c) > 0 then 1 else 0)"

text \<open>
  The inner loop over \<open>c\<close>, then the outer loop over \<open>r\<close>, on \<open>out = np.zeros((8, 8))\<close>:
  every pass assigns one cell of \<open>out\<close>.
\<close>

definition downsample_row :: "matrix \<Rightarrow> nat \<Rightarrow> matrix \<Rightarrow> matrix" where
  "downsample_row mat16 r out =
     fold (\<lambda>c out. set_item out r c (downsample_cell mat16 r c)) [0..<8] out"

definition downsample_16_to_8 :: "matrix \<Rightarrow> matrix" where
  "downsample_16_to_8 mat16 = fold (downsample_row mat16) [0..<8] (replicate 8 (replicate 8 0))"

subsection \<open>Images\<close>

text \<open>
  A PIL image is its size and its pixels, read at \<open>(x, y)\<close>. A pixel of mode \<open>L\<close> is one
  unsigned byte; a pixel of mode \<open>RGBA\<close> is four.
\<close>

record 'p image =
  im_width :: int
  im_height :: int
  getpixel :: "int \<Rightarrow> int \<Rightarrow> 'p"

type_synonym gray = "8 word image"
type_synonym rgba = "(8 word \<times> 8 word \<times> 8 word \<times> 8 word) image"

datatype picture = ModeL gray | ModeRGBA rgba

text \<open>
  What PIL computes and the program only passes on: the bounding box of a text in the
  default font, the pixels of an image after \<open>draw.text\<close>, the pixels of a bilinear
  resize, and the gray value of a colour pixel. The pixel values are left open; the
  sizes are the ones the program asks for. The functions below describe the runs in
  which these library calls return.
\<close>

record pil =
  textbbox :: "string \<Rightarrow> int \<times> int \<times> int \<times> int"
  text_pixels :: "gray \<Rightarrow> int \<times> int \<Rightarrow> string \<Rightarrow> int \<Rightarrow> int \<Rightarrow> 8 word"
  bilinear :: "gray \<Rightarrow> int \<times> int \<Rightarrow> int \<Rightarrow> int \<Rightarrow> 8 word"
  luma :: "8 word \<times> 8 word \<times> 8 word \<times> 8 word \<Rightarrow> 8 word"

text \<open>\<open>Image.new("L", (width, height), color)\<close>.\<close>

definition Image_new :: "int \<times> int \<Rightarrow> 8 word \<Rightarrow> gray" where
  "Image_new sz color =
     \<lparr>im_width = fst sz, im_height = snd sz, getpixel = (\<lambda>x y. color)\<rparr>"

text \<open>\<open>ImageDraw.Draw(img).text(xy, text, fill=255, font=font)\<close>: the size stays.\<close>

definition draw_text :: "pil \<Rightarrow> gray \<Rightarrow> int \<times> int \<Rightarrow> string \<Rightarrow> gray" where
  "draw_text lib img xy text = img\<lparr>getpixel := text_pixels lib img xy text\<rparr>"

text \<open>\<open>img.resize(size, Image.BILINEAR)\<close>: an image of the size asked for.\<close>

definition resize :: "pil \<Rightarrow> gray \<Rightarrow> int \<times> int \<Rightarrow> gray" where
  "resize lib img sz =
     \<lparr>im_width = fst sz, im_height = snd sz, getpixel = bilinear lib img sz\<rparr>"

text \<open>\<open>img.crop((left, upper, right, lower))\<close>: pixels outside the image are 0.\<close>

definition crop :: "gray \<Rightarrow> int \<times> int \<times> int \<times> int \<Rightarrow> gray" where
  "crop img box =
     (case box of (left, upper, right, lower) \<Rightarrow>
        \<lparr>im_width = right - left, im_height = lower - upper,
         getpixel = (\<lambda>x y.
           if 0 \<le> left + x \<and> left + x < im_width img \<and> 0 \<le> upper + y \<and> upper + y < im_height img
           then getpixel img (left + x) (upper + y) else 0)\<rparr>)"

text \<open>\<open>img.convert("L")\<close>: an image of mode \<open>L\<close> is copied.\<close>

definition convert_L :: "pil \<Rightarrow> picture \<Rightarrow> gray" where
  "convert_L lib pic =
     (case pic of
        ModeL img \<Rightarrow> img
      | ModeRGBA img \<Rightarrow>
          \<lparr>im_width = im_width img, im_height = im_height img,
           getpixel = (\<lambda>x y. luma lib (getpixel img x y))\<rparr>)"

text \<open>\<open>range(a, b)\<close>, and \<open>np.array(img)\<close> of a mode \<open>L\<close> image: one row for each \<open>y\<close>.\<close>

definition py_range :: "int \<Rightarrow> int \<Rightarrow> int list" where
  "py_range a b = [a..b - 1]"

definition np_array :: "gray \<Rightarrow> 8 word list list" where
  "np_array img =
     map (\<lambda>y. map (\<lambda>x. getpixel img x y) (py_range 0 (im_width img))) (py_range 0 (im_height img))"

subsection \<open>\<open>text_to_frames\<close>\<close>

text \<open>
  Steps 1 to 3, lines 58 to 74: measure, render with 8 columns of padding, scale.
  \<open>height\<close> is the second parameter of \<open>text_to_frames\<close>; the program always calls it
  with the default, 8.
\<close>

definition scaled_strip :: "pil \<Rightarrow> string \<Rightarrow> int \<Rightarrow> gray" where
  "scaled_strip lib text height =
     (case textbbox lib text of (x0, y0, x1, y1) \<Rightarrow>
        let w = x1 - x0;
            h = y1 - y0;
            img = Image_new (w + 8, h) 0;
            img = draw_text lib img (0, - y0) text
        in resize lib img (im_width img, height))"

text \<open>\<open>(arr > 128).astype(int)\<close> on the array of one crop.\<close>

definition window_frame :: "gray \<Rightarrow> int \<Rightarrow> int \<Rightarrow> matrix" where
  "window_frame img height x =
     map (map (\<lambda>p. if p > 128 then 1 else 0)) (np_array (crop img (x, 0, x + 8, height)))"

text \<open>Step 4, lines 77 to 81: the loop that appends one frame for each \<open>x\<close>.\<close>

definition window_frames :: "gray \<Rightarrow> int \<Rightarrow> matrix list" where
  "window_frames img height =
     fold (\<lambda>x frames. frames @ [window_frame img height x]) (py_range 0 (im_width img - 8 + 1)) []"

definition text_to_frames :: "pil \<Rightarrow> string \<Rightarrow> int \<Rightarrow> matrix list" where
  "text_to_frames lib text height =
     (if text = [] then []
      else let frames = window_frames (scaled_strip lib text height) height
           in if frames \<noteq> [] then frames @ [last frames] else frames)"

subsection \<open>\<open>image_to_8x8\<close>\<close>

text \<open>
  The array is \<open>float32\<close>; \<open>0.7\<close> is a Python float, a double, and is compared as a
  \<open>float32\<close>. The two roundings are taken as given: \<open>float32\<close> and \<open>float64\<close> map a real
  number to the number of the format nearest to it.
\<close>

record floats =
  float32 :: "real \<Rightarrow> real"
  float64 :: "real \<Rightarrow> real"

definition image_to_8x8 :: "floats \<Rightarrow> pil \<Rightarrow> picture \<Rightarrow> matrix" where
  "image_to_8x8 fl lib pic =
     (let img = convert_L lib pic;
          img = resize lib img (8, 8);
          arr = map (map (\<lambda>p. real (unat p))) (np_array img);
          arr = map (map (\<lambda>v. float32 fl (v / 255))) arr
      in map (map (\<lambda>v. if v < float32 fl (float64 fl (7 / 10)) then 1 else 0)) arr)"

text \<open>
  Rounding to nearest moves a number of the normal range by at most half a unit in the
  last place: a relative error of \<open>2 ^ -24\<close> for \<open>float32\<close> and \<open>2 ^ -53\<close> for \<open>float64\<close>.
  Zero is a number of both formats.
\<close>

definition rounds_to_nearest :: "floats \<Rightarrow> bool" where
  "rounds_to_nearest fl \<longleftrightarrow>
     float32 fl 0 = 0 \<and>
     (\<forall>x. 1 / 256 \<le> x \<and> x \<le> 1 \<longrightarrow> \<bar>float32 fl x - x\<bar> \<le> x / 2 ^ 24) \<and>
     (\<forall>x. 1 / 256 \<le> x \<and> x \<le> 1 \<longrightarrow> \<bar>float64 fl x - x\<bar> \<le> x / 2 ^ 53)"

text \<open>
  A resize of an image whose pixels all have one value gives that value everywhere:
  the weights of the interpolation add up to one.
\<close>

definition uniform :: "gray \<Rightarrow> 8 word \<Rightarrow> bool" where
  "uniform img v \<longleftrightarrow>
     0 < im_width img \<and> 0 < im_height img \<and>
     (\<forall>x y. 0 \<le> x \<and> x < im_width img \<and> 0 \<le> y \<and> y < im_height img \<longrightarrow> getpixel img x y = v)"

definition keeps_uniform :: "pil \<Rightarrow> bool" where
  "keeps_uniform lib \<longleftrightarrow>
     (\<forall>img sz v. uniform img v \<and> 0 < fst sz \<and> 0 < snd sz \<longrightarrow> uniform (resize lib img sz) v)"

section \<open>Properties of the wire frame\<close>

lemma np_shape_8x8:
  "np_shape m = Some [8, 8] \<longleftrightarrow> length m = 8 \<and> (\<forall>row \<in> set m. length row = 8)"
proof (cases m)
  case Nil
  then show ?thesis by simp
next
  case (Cons row rows)
  then show ?thesis by auto
qed

lemma bit_fold_set_cell_bit:
  "bit (fold (set_cell_bit row) cs b) k \<longleftrightarrow>
     bit b k \<or> (\<exists>c \<in> set cs. row ! c \<noteq> 0 \<and> k = 7 - c)"
proof (induction cs arbitrary: b)
  case Nil
  then show ?case by simp
next
  case (Cons c cs)
  then show ?case
    by (auto simp: set_cell_bit_def bit_or_iff bit_exp_iff)
qed

lemma bit_row_byte:
  "bit (row_byte row) k \<longleftrightarrow> (\<exists>c < 8. row ! c \<noteq> 0 \<and> k = 7 - c)"
  by (auto simp: row_byte_def bit_fold_set_cell_bit)

lemma row_byte_take_bit: "take_bit 8 (row_byte row) = row_byte row"
  by (rule bit_eqI) (auto simp: bit_take_bit_iff bit_row_byte)

lemma row_byte_range: "0 \<le> row_byte row \<and> row_byte row < 256"
proof -
  have "0 \<le> take_bit 8 (row_byte row)" by simp
  moreover have "take_bit 8 (row_byte row) < 2 ^ 8" by (rule take_bit_int_less_exp)
  ultimately show ?thesis by (simp add: row_byte_take_bit)
qed

lemma bit_row_byte_cell:
  assumes "c < 8"
  shows "bit (row_byte row) (7 - c) \<longleftrightarrow> row ! c \<noteq> 0"
proof -
  have "c' = c" if "c' < 8" "7 - c = 7 - c'" for c' :: nat
    using that assms by arith
  then show ?thesis using assms by (auto simp: bit_row_byte)
qed

lemma row_byte_unlit: "\<forall>c < 8. row ! c = 0 \<Longrightarrow> row_byte row = 0"
  by (rule bit_eqI) (auto simp: bit_row_byte)

lemma row_byte_lit: "\<forall>c < 8. row ! c \<noteq> 0 \<Longrightarrow> row_byte row = 255"
proof (rule bit_eqI)
  fix k
  assume lit: "\<forall>c < 8. row ! c \<noteq> 0"
  have "bit (mask 8 :: int) k \<longleftrightarrow> k < 8" by (simp add: bit_mask_iff)
  then have "bit (255::int) k \<longleftrightarrow> k < 8" by (simp add: mask_eq_exp_minus_1)
  moreover have "bit (row_byte row) k \<longleftrightarrow> k < 8"
  proof
    assume "bit (row_byte row) k" then show "k < 8" by (auto simp: bit_row_byte)
  next
    assume "k < 8"
    then have "7 - k < 8 \<and> row ! (7 - k) \<noteq> 0 \<and> k = 7 - (7 - k)" using lit by auto
    then show "bit (row_byte row) k" unfolding bit_row_byte by blast
  qed
  ultimately show "bit (row_byte row) k = bit (255::int) k" by simp
qed

lemma append_rows_map:
  "append_rows m rs data = Inr (data @ map (\<lambda>r. row_byte (m ! r)) rs)"
  by (induction rs arbitrary: data) (simp_all add: bytearray_append_def row_byte_range)

lemma send_frame_data_8x8:
  assumes "np_shape m = Some [8, 8]"
  shows "send_frame_data m = Inr (0xAA # map row_byte m)"
proof -
  have len: "length m = 8" using assms by (simp add: np_shape_8x8)
  have "map (\<lambda>r. row_byte (m ! r)) [0..<8] = map row_byte (map ((!) m) [0..<length m])"
    by (simp add: len)
  also have "\<dots> = map row_byte m" by (simp only: map_nth)
  finally show ?thesis
    using assms by (simp add: send_frame_data_def bytearray_append_def append_rows_map)
qed

lemma send_frame_data_not_8x8:
  assumes "np_shape m \<noteq> Some [8, 8]"
  shows "send_frame_data m = Inl ValueError"
  using assms by (auto simp: send_frame_data_def split: option.splits)

lemma unpack_row_byte:
  assumes "length row = 8" and "\<forall>v \<in> set row. v = 0 \<or> v = 1"
  shows "unpack_row (row_byte row) = row"
proof (rule nth_equalityI)
  show "length (unpack_row (row_byte row)) = length row"
    using assms(1) by (simp add: unpack_row_def)
next
  fix c assume "c < length (unpack_row (row_byte row))"
  then have c: "c < 8" by (simp add: unpack_row_def)
  then have "row ! c \<in> set row" using assms(1) by simp
  then have "row ! c = 0 \<or> row ! c = 1" using assms(2) by blast
  then show "unpack_row (row_byte row) ! c = row ! c"
    using c by (auto simp: unpack_row_def bit_row_byte_cell)
qed

lemma np_shape_map: "np_shape (map (map f) m) = np_shape m"
  by (cases m) simp_all

lemma row_byte_map:
  assumes "length row = 8" and "\<And>v. f v \<noteq> 0 \<longleftrightarrow> v \<noteq> (0::int)"
  shows "row_byte (map f row) = row_byte row"
proof (rule bit_eqI)
  fix k
  have "map f row ! c \<noteq> 0 \<longleftrightarrow> row ! c \<noteq> 0" if "c < 8" for c
    using that assms by simp
  then show "bit (row_byte (map f row)) k = bit (row_byte row) k"
    by (simp add: bit_row_byte cong: conj_cong)
qed

subsection \<open>The frame of an 8x8 matrix\<close>

text \<open>
  Claim C1. For an 8x8 matrix of cells 0 and 1, \<open>send_frame\<close> builds nine bytes: the
  header \<open>0xAA\<close>, then one byte for each row from the top, every one in the range of a
  byte, with bit \<open>7 - c\<close> of the byte of row \<open>r\<close> set exactly when cell \<open>(r, c)\<close> is 1. On
  an open port whose write succeeds these nine bytes are what goes on the wire. The
  all-zero matrix gives eight zero bytes after the header, the all-one matrix eight
  bytes \<open>0xFF\<close>.
\<close>

theorem send_frame_packs_rows:
  assumes "np_shape m = Some [8, 8]" and "binary m"
  shows "(\<exists>bytes. send_frame_data m = Inr (0xAA # bytes) \<and> length bytes = 8 \<and>
           (\<forall>r < 8. 0 \<le> bytes ! r \<and> bytes ! r < 256 \<and>
              (\<forall>c < 8. bit (bytes ! r) (7 - c) \<longleftrightarrow> m ! r ! c = 1)) \<and>
           (\<forall>s fx. is_open s \<and> \<not> write_raises s \<longrightarrow>
              send_frame (Some s) m fx = Inr (fx\<lparr>wire := wire fx @ [0xAA # bytes]\<rparr>))) \<and>
         send_frame_data (replicate 8 (replicate 8 0)) = Inr (0xAA # replicate 8 0) \<and>
         send_frame_data (replicate 8 (replicate 8 1)) = Inr (0xAA # replicate 8 0xFF)"
proof -
  have len: "length m = 8" and rows: "\<forall>row \<in> set m. length row = 8"
    using assms(1) by (simp_all add: np_shape_8x8)
  have data: "send_frame_data m = Inr (0xAA # map row_byte m)"
    using assms(1) by (rule send_frame_data_8x8)
  have cell: "bit (map row_byte m ! r) (7 - c) \<longleftrightarrow> m ! r ! c = 1" if "r < 8" "c < 8" for r c
  proof -
    have "m ! r \<in> set m" using that len by simp
    moreover have "m ! r ! c \<in> set (m ! r)" using that rows \<open>m ! r \<in> set m\<close> by simp
    ultimately have "m ! r ! c = 0 \<or> m ! r ! c = 1" using assms(2) by (auto simp: binary_def)
    then show ?thesis using that len by (auto simp: bit_row_byte_cell)
  qed
  have "send_frame (Some s) m fx = Inr (fx\<lparr>wire := wire fx @ [0xAA # map row_byte m]\<rparr>)"
    if "is_open s \<and> \<not> write_raises s" for s fx
    using that by (simp add: send_frame_def data ser_write_def)
  then have packed: "\<exists>bytes. send_frame_data m = Inr (0xAA # bytes) \<and> length bytes = 8 \<and>
           (\<forall>r < 8. 0 \<le> bytes ! r \<and> bytes ! r < 256 \<and>
              (\<forall>c < 8. bit (bytes ! r) (7 - c) \<longleftrightarrow> m ! r ! c = 1)) \<and>
           (\<forall>s fx. is_open s \<and> \<not> write_raises s \<longrightarrow>
              send_frame (Some s) m fx = Inr (fx\<lparr>wire := wire fx @ [0xAA # bytes]\<rparr>))"
    using data len cell by (intro exI [of _ "map row_byte m"]) (simp add: row_byte_range)
  have "np_shape (replicate 8 (replicate 8 v)) = Some [8, 8]" for v :: int
    by (simp add: np_shape_8x8)
  then have "send_frame_data (replicate 8 (replicate 8 v)) =
      Inr (0xAA # replicate 8 (row_byte (replicate 8 v)))" for v :: int
    by (simp add: send_frame_data_8x8)
  then have "send_frame_data (replicate 8 (replicate 8 0)) = Inr (0xAA # replicate 8 0)"
    and "send_frame_data (replicate 8 (replicate 8 1)) = Inr (0xAA # replicate 8 0xFF)"
    by (simp_all add: row_byte_unlit row_byte_lit)
  with packed show ?thesis by blast
qed

theorem send_frame_packs_rows_witness:
  "let m = [[0, 0, 0, 1, 1, 0, 0, 0],
            [0, 0, 1, 0, 0, 1, 0, 0],
            [0, 1, 0, 0, 0, 0, 1, 0],
            [0, 1, 1, 1, 1, 1, 1, 0],
            [0, 1, 0, 0, 0, 0, 1, 0],
            [0, 1, 0, 0, 0, 0, 1, 0],
            [0, 0, 0, 0, 0, 0, 1, 1],
            [1, 0, 0, 0, 0, 0, 0, 0]]
   in np_shape m = Some [8, 8] \<and> binary m \<and>
      send_frame_data m = Inr [0xAA, 0x18, 0x24, 0x42, 0x7E, 0x42, 0x42, 0x03, 0x80] \<and>
      (\<exists>bytes. send_frame_data m = Inr (0xAA # bytes) \<and> length bytes = 8 \<and>
         (\<forall>r < 8. 0 \<le> bytes ! r \<and> bytes ! r < 256 \<and>
            (\<forall>c < 8. bit (bytes ! r) (7 - c) \<longleftrightarrow> m ! r ! c = 1)))"
proof -
  let ?m = "[[0, 0, 0, 1, 1, 0, 0, 0],
            [0, 0, 1, 0, 0, 1, 0, 0],
            [0, 1, 0, 0, 0, 0, 1, 0],
            [0, 1, 1, 1, 1, 1, 1, 0],
            [0, 1, 0, 0, 0, 0, 1, 0],
            [0, 1, 0, 0, 0, 0, 1, 0],
            [0, 0, 0, 0, 0, 0, 1, 1],
            [1, 0, 0, 0, 0, 0, 0, 0 :: int]]"
  have shape: "np_shape ?m = Some [8, 8]" by simp
  have bin: "binary ?m" by (simp add: binary_def)
  have bytes: "send_frame_data ?m = Inr [0xAA, 0x18, 0x24, 0x42, 0x7E, 0x42, 0x42, 0x03, 0x80]"
    by code_simp
  from send_frame_packs_rows [OF shape bin] shape bin bytes
  show ?thesis unfolding Let_def by blast
qed

subsection \<open>A matrix of another shape\<close>

text \<open>
  Claim C2. When the matrix is not 8 rows of 8 columns, the shape check of \<open>send_frame\<close>
  raises \<open>ValueError\<close> (the spec's \<open>ShapeError\<close>) and no bytes are built. A call with an
  open port therefore ends in the error, and whatever the port, a call that returns has
  put no frame on the wire. With no port or a closed one, \<open>send_frame\<close> returns at its
  guard, before the packing and the shape check are reached.
\<close>

theorem send_frame_rejects_shape:
  assumes "np_shape m \<noteq> Some [8, 8]"
  shows "send_frame_data m = Inl ValueError \<and>
         (\<forall>s fx. is_open s \<longrightarrow> send_frame (Some s) m fx = Inl ValueError) \<and>
         (\<forall>ser fx fx'. send_frame ser m fx = Inr fx' \<longrightarrow> wire fx' = wire fx)"
proof -
  have data: "send_frame_data m = Inl ValueError"
    using assms by (rule send_frame_data_not_8x8)
  have "send_frame (Some s) m fx = Inl ValueError" if "is_open s" for s fx
    using that by (simp add: send_frame_def data)
  moreover have "wire fx' = wire fx" if "send_frame ser m fx = Inr fx'" for ser fx fx'
    using that by (auto simp: send_frame_def data st_error_def split: option.splits if_splits)
  ultimately show ?thesis using data by blast
qed

theorem send_frame_rejects_shape_witness:
  "let m = [[1, 0, 1, 1, 0, 0, 1, 0], [0, 1, 1]];
       s = \<lparr>is_open = True, write_raises = False\<rparr>;
       fx = \<lparr>wire = [], st_errors = []\<rparr>
   in np_shape m \<noteq> Some [8, 8] \<and> send_frame_data m = Inl ValueError \<and>
      is_open s \<and> send_frame (Some s) m fx = Inl ValueError \<and>
      send_frame_data (replicate 8 (replicate 7 1)) = Inl ValueError \<and>
      send_frame_data (replicate 9 (replicate 8 1)) = Inl ValueError"
proof -
  have ragged: "np_shape [[1, 0, 1, 1, 0, 0, 1, 0], [0, 1, 1]] \<noteq> Some [8, 8]" by simp
  have narrow: "np_shape (replicate 8 (replicate 7 1)) \<noteq> Some [8, 8]"
    by (simp add: np_shape_8x8)
  have tall: "np_shape (replicate 9 (replicate 8 1)) \<noteq> Some [8, 8]"
    by (simp add: np_shape_8x8)
  from send_frame_rejects_shape [OF ragged] send_frame_rejects_shape [OF narrow]
    send_frame_rejects_shape [OF tall] ragged
  show ?thesis unfolding Let_def by simp
qed

subsection \<open>Reading a frame back\<close>

text \<open>
  Claim C4. For an 8x8 matrix of cells 0 and 1, the nine bytes that \<open>send_frame\<close>
  builds, read back row byte by row byte with bit \<open>7 - c\<close> of byte \<open>r\<close> as cell \<open>(r, c)\<close>,
  give the matrix again.
\<close>

theorem unpack_send_frame_data:
  assumes "np_shape m = Some [8, 8]" and "binary m"
  shows "\<exists>frame. send_frame_data m = Inr frame \<and> length frame = 9 \<and> unpack_frame frame = m"
proof -
  have len: "length m = 8" and rows: "\<forall>row \<in> set m. length row = 8"
    using assms(1) by (simp_all add: np_shape_8x8)
  have "map unpack_row (map row_byte m) = map id m"
    unfolding map_map using rows assms(2)
    by (intro map_cong refl) (simp add: unpack_row_byte binary_def)
  then have "unpack_frame (0xAA # map row_byte m) = m"
    by (simp add: unpack_frame_def)
  then show ?thesis
    using send_frame_data_8x8 [OF assms(1)] len by simp
qed

theorem unpack_send_frame_data_witness:
  "let m = [[1, 0, 0, 0, 0, 0, 0, 0],
            [1, 1, 0, 0, 0, 0, 0, 0],
            [1, 0, 1, 0, 0, 0, 0, 0],
            [1, 0, 0, 1, 0, 0, 0, 0],
            [1, 0, 0, 0, 1, 0, 0, 0],
            [1, 0, 0, 0, 0, 1, 0, 0],
            [1, 0, 0, 0, 0, 0, 1, 0],
            [1, 1, 1, 1, 1, 1, 1, 1]]
   in np_shape m = Some [8, 8] \<and> binary m \<and>
      unpack_frame [0xAA, 0x80, 0xC0, 0xA0, 0x90, 0x88, 0x84, 0x82, 0xFF] = m \<and>
      (\<exists>frame. send_frame_data m = Inr frame \<and> length frame = 9 \<and> unpack_frame frame = m)"
proof -
  let ?m = "[[1, 0, 0, 0, 0, 0, 0, 0],
            [1, 1, 0, 0, 0, 0, 0, 0],
            [1, 0, 1, 0, 0, 0, 0, 0],
            [1, 0, 0, 1, 0, 0, 0, 0],
            [1, 0, 0, 0, 1, 0, 0, 0],
            [1, 0, 0, 0, 0, 1, 0, 0],
            [1, 0, 0, 0, 0, 0, 1, 0],
            [1, 1, 1, 1, 1, 1, 1, 1 :: int]]"
  have shape: "np_shape ?m = Some [8, 8]" by simp
  have bin: "binary ?m" by (simp add: binary_def)
  have readback: "unpack_frame [0xAA, 0x80, 0xC0, 0xA0, 0x90, 0x88, 0x84, 0x82, 0xFF] = ?m"
    by code_simp
  from unpack_send_frame_data [OF shape bin] shape bin readback
  show ?thesis unfolding Let_def by blast
qed

subsection \<open>Cells that are not 0 or 1\<close>

text \<open>
  Claim C10. For an 8x8 matrix of integers of the array (signed 64-bit cells, so that
  the conversion of line 30 gives an array), \<open>send_frame\<close> builds the header and eight
  row bytes in which bit \<open>7 - c\<close> of the byte of row \<open>r\<close> is set exactly when cell
  \<open>(r, c)\<close> is nonzero: any nonzero value counts as lit, not only 1. The frame is
  therefore the frame of the matrix with every nonzero cell replaced by 1, and the
  whole call behaves the same on both matrices.
\<close>

theorem send_frame_data_binarize:
  assumes "np_shape m = Some [8, 8]" and "int64_cells m"
  shows "(\<exists>bytes. send_frame_data m = Inr (0xAA # bytes) \<and>
            send_frame_data (binarize m) = Inr (0xAA # bytes) \<and> length bytes = 8 \<and>
            (\<forall>r < 8. 0 \<le> bytes ! r \<and> bytes ! r < 256 \<and>
               (\<forall>c < 8. bit (bytes ! r) (7 - c) \<longleftrightarrow> m ! r ! c \<noteq> 0))) \<and>
         (\<forall>ser fx. send_frame ser (binarize m) fx = send_frame ser m fx)"
proof -
  have len: "length m = 8" and rows: "\<forall>row \<in> set m. length row = 8"
    using assms(1) by (simp_all add: np_shape_8x8)
  have shape': "np_shape (binarize m) = Some [8, 8]"
    using assms(1) by (simp add: binarize_def np_shape_map)
  have data: "send_frame_data m = Inr (0xAA # map row_byte m)"
    using assms(1) by (rule send_frame_data_8x8)
  have "map row_byte (binarize m) = map row_byte m"
    unfolding binarize_def map_map using rows
    by (intro map_cong refl) (simp add: row_byte_map)
  then have data': "send_frame_data (binarize m) = Inr (0xAA # map row_byte m)"
    by (simp add: send_frame_data_8x8 shape')
  have cell: "bit (map row_byte m ! r) (7 - c) \<longleftrightarrow> m ! r ! c \<noteq> 0" if "r < 8" "c < 8" for r c
    using that len by (simp add: bit_row_byte_cell)
  have range: "0 \<le> map row_byte m ! r \<and> map row_byte m ! r < 256" if "r < 8" for r
    using that len by (simp add: row_byte_range)
  have "\<exists>bytes. send_frame_data m = Inr (0xAA # bytes) \<and>
            send_frame_data (binarize m) = Inr (0xAA # bytes) \<and> length bytes = 8 \<and>
            (\<forall>r < 8. 0 \<le> bytes ! r \<and> bytes ! r < 256 \<and>
               (\<forall>c < 8. bit (bytes ! r) (7 - c) \<longleftrightarrow> m ! r ! c \<noteq> 0))"
    using data data' len cell range by (intro exI [of _ "map row_byte m"]) simp
  moreover have "send_frame ser (binarize m) fx = send_frame ser m fx" for ser fx
    by (simp add: send_frame_def data data' split: option.splits)
  ultimately show ?thesis by blast
qed

theorem send_frame_data_binarize_witness:
  "let m = [[2, 0, 0, 0, 0, 0, 0, - 1],
            [0, 255, 0, 0, 0, 0, 7, 0],
            [0, 0, 1, 0, 0, 1, 0, 0],
            [0, 0, 0, - 128, 3, 0, 0, 0],
            [0, 0, 0, 9, 9, 0, 0, 0],
            [0, 0, 1, 0, 0, 1, 0, 0],
            [0, 9223372036854775807, 0, 0, 0, 0, - 9223372036854775808, 0],
            [5, 0, 0, 0, 0, 0, 0, 0]]
   in np_shape m = Some [8, 8] \<and> int64_cells m \<and> \<not> binary m \<and>
      send_frame_data m = Inr [0xAA, 0x81, 0x42, 0x24, 0x18, 0x18, 0x24, 0x42, 0x80] \<and>
      send_frame_data (binarize m) = Inr [0xAA, 0x81, 0x42, 0x24, 0x18, 0x18, 0x24, 0x42, 0x80] \<and>
      (\<exists>bytes. send_frame_data m = Inr (0xAA # bytes) \<and>
         send_frame_data (binarize m) = Inr (0xAA # bytes) \<and> length bytes = 8 \<and>
         (\<forall>r < 8. 0 \<le> bytes ! r \<and> bytes ! r < 256 \<and>
            (\<forall>c < 8. bit (bytes ! r) (7 - c) \<longleftrightarrow> m ! r ! c \<noteq> 0)))"
proof -
  let ?m = "[[2, 0, 0, 0, 0, 0, 0, - 1],
            [0, 255, 0, 0, 0, 0, 7, 0],
            [0, 0, 1, 0, 0, 1, 0, 0],
            [0, 0, 0, - 128, 3, 0, 0, 0],
            [0, 0, 0, 9, 9, 0, 0, 0],
            [0, 0, 1, 0, 0, 1, 0, 0],
            [0, 9223372036854775807, 0, 0, 0, 0, - 9223372036854775808, 0],
            [5, 0, 0, 0, 0, 0, 0, 0 :: int]]"
  have shape: "np_shape ?m = Some [8, 8]" by simp
  have cells: "int64_cells ?m" by (simp add: int64_cells_def)
  have nonbin: "\<not> binary ?m" by (simp add: binary_def)
  have bytes: "send_frame_data ?m = Inr [0xAA, 0x81, 0x42, 0x24, 0x18, 0x18, 0x24, 0x42, 0x80]"
    by code_simp
  have bytes': "send_frame_data (binarize ?m) =
      Inr [0xAA, 0x81, 0x42, 0x24, 0x18, 0x18, 0x24, 0x42, 0x80]"
    by code_simp
  from send_frame_data_binarize [OF shape cells] shape cells nonbin bytes bytes'
  show ?thesis unfolding Let_def by blast
qed

section \<open>Properties of the downsampler\<close>

lemma np_shape_rows_cols:
  "0 < rows \<Longrightarrow>
     np_shape m = Some [rows, cols] \<longleftrightarrow> length m = rows \<and> (\<forall>row \<in> set m. length row = cols)"
  by (cases m) auto

lemma length_set_item: "length (set_item out r c v) = length out"
  by (simp add: set_item_def)

lemma length_nth_set_item: "length (set_item out r c v ! r') = length (out ! r')"
  by (cases "r < length out") (simp_all add: set_item_def nth_list_update list_update_beyond)

lemma nth_set_item:
  assumes "r < length out" and "c < length (out ! r)"
  shows "set_item out r c v ! r' ! c' = (if r' = r \<and> c' = c then v else out ! r' ! c')"
  using assms by (simp add: set_item_def nth_list_update)

lemma fold_set_item:
  assumes "r < length out" and "\<forall>c \<in> set cs. c < length (out ! r)"
  shows "length (fold (\<lambda>c out. set_item out r c (f c)) cs out) = length out \<and>
         (\<forall>r'. length (fold (\<lambda>c out. set_item out r c (f c)) cs out ! r') = length (out ! r')) \<and>
         (\<forall>r' c'. fold (\<lambda>c out. set_item out r c (f c)) cs out ! r' ! c' =
            (if r' = r \<and> c' \<in> set cs then f c' else out ! r' ! c'))"
  using assms
proof (induction cs arbitrary: out)
  case Nil
  then show ?case by simp
next
  case (Cons c cs)
  let ?out = "set_item out r c (f c)"
  have r: "r < length ?out" using Cons.prems(1) by (simp add: length_set_item)
  have cs: "\<forall>c' \<in> set cs. c' < length (?out ! r)"
    using Cons.prems(2) by (simp add: length_nth_set_item)
  have c: "c < length (out ! r)" using Cons.prems(2) by simp
  note IH = Cons.IH [OF r cs]
  show ?case
    using IH by (auto simp: length_set_item length_nth_set_item nth_set_item [OF Cons.prems(1) c])
qed

lemma downsample_row_nth:
  assumes "r < length out" and "length (out ! r) = 8"
  shows "length (downsample_row m r out) = length out \<and>
         (\<forall>r'. length (downsample_row m r out ! r') = length (out ! r')) \<and>
         (\<forall>r' c'. downsample_row m r out ! r' ! c' =
            (if r' = r \<and> c' < 8 then downsample_cell m r c' else out ! r' ! c'))"
proof -
  have "\<forall>c \<in> set [0..<8]. c < length (out ! r)" using assms(2) by simp
  from fold_set_item [OF assms(1) this, of "downsample_cell m r"]
  show ?thesis unfolding downsample_row_def by simp
qed

lemma fold_downsample_row:
  assumes "\<forall>r \<in> set rs. r < length out \<and> length (out ! r) = 8"
  shows "length (fold (downsample_row m) rs out) = length out \<and>
         (\<forall>r'. length (fold (downsample_row m) rs out ! r') = length (out ! r')) \<and>
         (\<forall>r' c'. fold (downsample_row m) rs out ! r' ! c' =
            (if r' \<in> set rs \<and> c' < 8 then downsample_cell m r' c' else out ! r' ! c'))"
  using assms
proof (induction rs arbitrary: out)
  case Nil
  then show ?case by simp
next
  case (Cons r rs)
  have r: "r < length out" and row: "length (out ! r) = 8" using Cons.prems by simp_all
  note step = downsample_row_nth [OF r row, of m]
  have "\<forall>r' \<in> set rs. r' < length (downsample_row m r out) \<and>
          length (downsample_row m r out ! r') = 8"
    using Cons.prems step by simp
  note IH = Cons.IH [OF this]
  show ?case using IH step by auto
qed

lemma downsample_16_to_8_nth:
  "length (downsample_16_to_8 m) = 8 \<and>
   (\<forall>r < 8. length (downsample_16_to_8 m ! r) = 8 \<and>
      (\<forall>c < 8. downsample_16_to_8 m ! r ! c = downsample_cell m r c))"
proof -
  let ?zeros = "replicate 8 (replicate 8 (0::int))"
  have "\<forall>r \<in> set [0..<8]. r < length ?zeros \<and> length (?zeros ! r) = 8" by simp
  from fold_downsample_row [OF this, of m]
  show ?thesis unfolding downsample_16_to_8_def by simp
qed

lemma slice_pair:
  assumes "i + 2 \<le> length xs"
  shows "slice i (i + 2) xs = [xs ! i, xs ! (i + 1)]"
proof -
  have "drop i xs = xs ! i # drop (Suc i) xs"
    using assms by (simp add: Cons_nth_drop_Suc)
  moreover have "drop (Suc i) xs = xs ! Suc i # drop (Suc (Suc i)) xs"
    using assms by (simp add: Cons_nth_drop_Suc)
  ultimately show ?thesis by (simp add: slice_def numeral_2_eq_2)
qed

lemma block_16:
  assumes "length m = 16" and "\<forall>row \<in> set m. length row = 16" and "r < 8" and "c < 8"
  shows "block m r c =
     [[m ! (2 * r) ! (2 * c), m ! (2 * r) ! (2 * c + 1)],
      [m ! (2 * r + 1) ! (2 * c), m ! (2 * r + 1) ! (2 * c + 1)]]"
proof -
  have next2: "(k + 1) * 2 = k * 2 + 2" for k :: nat by simp
  have rows: "slice (r * 2) (r * 2 + 2) m = [m ! (r * 2), m ! (r * 2 + 1)]"
    using assms(1,3) by (intro slice_pair) simp
  have cut: "slice (c * 2) (c * 2 + 2) (m ! k) = [m ! k ! (c * 2), m ! k ! (c * 2 + 1)]"
    if "k < 16" for k
  proof -
    have "m ! k \<in> set m" using that assms(1) by simp
    then have "length (m ! k) = 16" using assms(2) by simp
    then show ?thesis using assms(4) by (intro slice_pair) simp
  qed
  have upper: "r * 2 < 16" and lower: "r * 2 + 1 < 16" using assms(3) by simp_all
  have "block m r c =
     [[m ! (r * 2) ! (c * 2), m ! (r * 2) ! (c * 2 + 1)],
      [m ! (r * 2 + 1) ! (c * 2), m ! (r * 2 + 1) ! (c * 2 + 1)]]"
    unfolding block_def next2 rows list.map cut [OF upper] cut [OF lower] by (rule refl)
  then show ?thesis by (simp add: mult.commute)
qed

lemma ex_less_2: "(\<exists>i < 2. Q i) \<longleftrightarrow> Q (0::nat) \<or> Q 1"
  by (auto simp: less_2_cases_iff)

lemma np_sum_small:
  assumes "0 \<le> s" and "s \<le> 4" and "sum_list (concat a) = s"
  shows "np_sum a = s"
proof -
  have "- (2 ^ 63) \<le> s" and "s < 2 ^ 63" using assms(1,2) by simp_all
  then have "signed_take_bit 63 s = s" by (rule signed_take_bit_int_eq_self)
  then show ?thesis by (simp add: np_sum_def assms(3))
qed

lemma cell_or:
  fixes m :: matrix
  shows "(\<exists>i < 2. \<exists>j < 2. m ! (2 * r + i) ! (2 * c + j) = 1) \<longleftrightarrow>
        m ! (2 * r) ! (2 * c) = 1 \<or> m ! (2 * r) ! (2 * c + 1) = 1 \<or>
        m ! (2 * r + 1) ! (2 * c) = 1 \<or> m ! (2 * r + 1) ! (2 * c + 1) = 1"
  by (simp add: ex_less_2 disj_ac)

lemma sum4_pos:
  fixes a b c d :: int
  assumes "a = 0 \<or> a = 1" and "b = 0 \<or> b = 1" and "c = 0 \<or> c = 1" and "d = 0 \<or> d = 1"
  shows "0 < a + b + c + d \<longleftrightarrow> a = 1 \<or> b = 1 \<or> c = 1 \<or> d = 1"
  using assms by arith

lemma binary_nth:
  assumes "binary m" and "k < length m" and "l < length (m ! k)"
  shows "m ! k ! l = 0 \<or> m ! k ! l = 1"
proof -
  have "m ! k \<in> set m" using assms(2) by simp
  moreover have "m ! k ! l \<in> set (m ! k)" using assms(3) by simp
  ultimately show ?thesis using assms(1) unfolding binary_def by blast
qed

lemma downsample_cell_16:
  assumes len: "length m = 16" and rows: "\<forall>row \<in> set m. length row = 16" and bin: "binary m"
    and r: "r < 8" and c: "c < 8"
  shows "downsample_cell m r c =
      (if \<exists>i < 2. \<exists>j < 2. m ! (2 * r + i) ! (2 * c + j) = 1 then 1 else 0)"
proof -
  let ?a = "m ! (2 * r) ! (2 * c)" and ?b = "m ! (2 * r) ! (2 * c + 1)"
  let ?c = "m ! (2 * r + 1) ! (2 * c)" and ?d = "m ! (2 * r + 1) ! (2 * c + 1)"
  have row_len: "length (m ! k) = 16" if "k < 16" for k
    using that len rows by simp
  have a: "?a = 0 \<or> ?a = 1" using r c len by (intro binary_nth [OF bin]) (simp_all add: row_len)
  have b: "?b = 0 \<or> ?b = 1" using r c len by (intro binary_nth [OF bin]) (simp_all add: row_len)
  have c': "?c = 0 \<or> ?c = 1" using r c len by (intro binary_nth [OF bin]) (simp_all add: row_len)
  have d: "?d = 0 \<or> ?d = 1" using r c len by (intro binary_nth [OF bin]) (simp_all add: row_len)
  have total: "sum_list (concat (block m r c)) = ?a + ?b + ?c + ?d"
    by (simp add: block_16 [OF len rows r c])
  have pos: "0 < ?a + ?b + ?c + ?d \<longleftrightarrow> ?a = 1 \<or> ?b = 1 \<or> ?c = 1 \<or> ?d = 1"
    using a b c' d by (rule sum4_pos)
  have "0 \<le> ?a + ?b + ?c + ?d" and "?a + ?b + ?c + ?d \<le> 4"
    using a b c' d by arith+
  then have "np_sum (block m r c) = ?a + ?b + ?c + ?d"
    using total by (rule np_sum_small)
  then show ?thesis
    unfolding downsample_cell_def cell_or by (simp only: pos)
qed

subsection \<open>Block-wise OR\<close>

text \<open>
  Claim C3. For a 16x16 matrix of cells 0 and 1, \<open>downsample_16_to_8\<close> returns an 8x8
  matrix of cells 0 and 1 whose cell \<open>(r, c)\<close> is 1 exactly when one of the four cells
  of rows \<open>2r, 2r + 1\<close> and columns \<open>2c, 2c + 1\<close> of the input is 1.
\<close>

theorem downsample_16_to_8_block_or:
  assumes "np_shape m = Some [16, 16]" and "binary m"
  shows "np_shape (downsample_16_to_8 m) = Some [8, 8] \<and> binary (downsample_16_to_8 m) \<and>
         (\<forall>r < 8. \<forall>c < 8.
            downsample_16_to_8 m ! r ! c =
              (if \<exists>i < 2. \<exists>j < 2. m ! (2 * r + i) ! (2 * c + j) = 1 then 1 else 0))"
proof -
  let ?out = "downsample_16_to_8 m"
  have len: "length m = 16" and rows: "\<forall>row \<in> set m. length row = 16"
    using assms(1) by (simp_all add: np_shape_rows_cols)
  have out_len: "length ?out = 8"
    using downsample_16_to_8_nth [of m] by blast
  have out_row: "length (?out ! r) = 8" if "r < 8" for r
    using downsample_16_to_8_nth [of m] that by blast
  have cells: "?out ! r ! c = (if \<exists>i < 2. \<exists>j < 2. m ! (2 * r + i) ! (2 * c + j) = 1 then 1 else 0)"
    if "r < 8" "c < 8" for r c
  proof -
    have "?out ! r ! c = downsample_cell m r c"
      using downsample_16_to_8_nth [of m] that by blast
    then show ?thesis
      by (simp only: downsample_cell_16 [OF len rows assms(2) that])
  qed
  have out_rows: "\<forall>row \<in> set ?out. length row = 8"
  proof
    fix row assume "row \<in> set ?out"
    then obtain r where "r < length ?out" and "row = ?out ! r"
      by (metis in_set_conv_nth)
    then show "length row = 8" using out_len out_row by simp
  qed
  have shape: "np_shape ?out = Some [8, 8]"
    using out_len out_rows by (simp add: np_shape_rows_cols)
  have "binary ?out"
    unfolding binary_def
  proof (intro ballI)
    fix row v assume "row \<in> set ?out" and v: "v \<in> set row"
    then obtain r where r: "r < 8" and row: "row = ?out ! r"
      using out_len by (metis in_set_conv_nth)
    from v obtain c where "c < length row" and "v = row ! c"
      by (metis in_set_conv_nth)
    then have "c < 8" and "v = ?out ! r ! c" using r row out_row by simp_all
    then show "v = 0 \<or> v = 1" using r cells by simp
  qed
  with shape cells show ?thesis by blast
qed

theorem downsample_16_to_8_block_or_witness:
  "let m = [[1, 0, 0, 0, 0, 0, 0, 0, 0, 0, 0, 0, 0, 0, 0, 0],
            [0, 0, 0, 0, 0, 0, 0, 0, 0, 0, 0, 0, 0, 0, 0, 0],
            [0, 0, 1, 0, 0, 0, 0, 0, 0, 0, 0, 0, 0, 1, 0, 0],
            [0, 0, 0, 1, 0, 0, 0, 0, 0, 0, 0, 0, 0, 0, 0, 0],
            [0, 0, 0, 0, 0, 0, 0, 0, 0, 0, 0, 0, 0, 0, 0, 0],
            [0, 0, 0, 0, 0, 1, 0, 0, 0, 0, 0, 0, 0, 0, 0, 0],
            [0, 0, 0, 0, 0, 0, 1, 0, 0, 0, 0, 0, 0, 0, 0, 0],
            [0, 0, 0, 0, 0, 0, 0, 0, 0, 0, 0, 0, 0, 0, 0, 0],
            [0, 0, 0, 0, 0, 0, 0, 0, 1, 0, 0, 0, 0, 0, 0, 0],
            [0, 0, 0, 0, 1, 1, 0, 0, 0, 1, 0, 0, 0, 0, 0, 0],
            [0, 0, 0, 0, 0, 0, 0, 0, 0, 0, 0, 0, 0, 0, 0, 0],
            [0, 0, 0, 0, 0, 0, 0, 0, 0, 0, 0, 1, 0, 0, 0, 0],
            [0, 0, 0, 0, 0, 0, 0, 0, 0, 0, 0, 0, 1, 0, 0, 0],
            [0, 0, 0, 0, 0, 0, 0, 0, 0, 0, 0, 0, 0, 0, 0, 0],
            [1, 0, 0, 0, 0, 0, 0, 0, 0, 0, 0, 0, 0, 0, 1, 0],
            [0, 1, 0, 0, 0, 0, 0, 0, 0, 0, 0, 0, 0, 0, 0, 1]]
   in np_shape m = Some [16, 16] \<and> binary m \<and>
      downsample_16_to_8 m =
           [[1, 0, 0, 0, 0, 0, 0, 0],
            [0, 1, 0, 0, 0, 0, 1, 0],
            [0, 0, 1, 0, 0, 0, 0, 0],
            [0, 0, 0, 1, 0, 0, 0, 0],
            [0, 0, 1, 0, 1, 0, 0, 0],
            [0, 0, 0, 0, 0, 1, 0, 0],
            [0, 0, 0, 0, 0, 0, 1, 0],
            [1, 0, 0, 0, 0, 0, 0, 1]] \<and>
      np_shape (downsample_16_to_8 m) = Some [8, 8] \<and> binary (downsample_16_to_8 m)"
proof -
  let ?m = "[[1, 0, 0, 0, 0, 0, 0, 0, 0, 0, 0, 0, 0, 0, 0, 0],
            [0, 0, 0, 0, 0, 0, 0, 0, 0, 0, 0, 0, 0, 0, 0, 0],
            [0, 0, 1, 0, 0, 0, 0, 0, 0, 0, 0, 0, 0, 1, 0, 0],
            [0, 0, 0, 1, 0, 0, 0, 0, 0, 0, 0, 0, 0, 0, 0, 0],
            [0, 0, 0, 0, 0, 0, 0, 0, 0, 0, 0, 0, 0, 0, 0, 0],
            [0, 0, 0, 0, 0, 1, 0, 0, 0, 0, 0, 0, 0, 0, 0, 0],
            [0, 0, 0, 0, 0, 0, 1, 0, 0, 0, 0, 0, 0, 0, 0, 0],
            [0, 0, 0, 0, 0, 0, 0, 0, 0, 0, 0, 0, 0, 0, 0, 0],
            [0, 0, 0, 0, 0, 0, 0, 0, 1, 0, 0, 0, 0, 0, 0, 0],
            [0, 0, 0, 0, 1, 1, 0, 0, 0, 1, 0, 0, 0, 0, 0, 0],
            [0, 0, 0, 0, 0, 0, 0, 0, 0, 0, 0, 0, 0, 0, 0, 0],
            [0, 0, 0, 0, 0, 0, 0, 0, 0, 0, 0, 1, 0, 0, 0, 0],
            [0, 0, 0, 0, 0, 0, 0, 0, 0, 0, 0, 0, 1, 0, 0, 0],
            [0, 0, 0, 0, 0, 0, 0, 0, 0, 0, 0, 0, 0, 0, 0, 0],
            [1, 0, 0, 0, 0, 0, 0, 0, 0, 0, 0, 0, 0, 0, 1, 0],
            [0, 1, 0, 0, 0, 0, 0, 0, 0, 0, 0, 0, 0, 0, 0, 1 :: int]]"
  have shape: "np_shape ?m = Some [16, 16]" by simp
  have bin: "binary ?m" by (simp add: binary_def)
  have out: "downsample_16_to_8 ?m =
           [[1, 0, 0, 0, 0, 0, 0, 0],
            [0, 1, 0, 0, 0, 0, 1, 0],
            [0, 0, 1, 0, 0, 0, 0, 0],
            [0, 0, 0, 1, 0, 0, 0, 0],
            [0, 0, 1, 0, 1, 0, 0, 0],
            [0, 0, 0, 0, 0, 1, 0, 0],
            [0, 0, 0, 0, 0, 0, 1, 0],
            [1, 0, 0, 0, 0, 0, 0, 1]]"
    by code_simp
  from downsample_16_to_8_block_or [OF shape bin] shape bin out
  show ?thesis unfolding Let_def by blast
qed

section \<open>Properties of the text frames\<close>

lemma fold_append_map: "fold (\<lambda>x acc. acc @ [f x]) xs acc = acc @ map f xs"
  by (induction xs arbitrary: acc) simp_all

lemma length_py_range: "length (py_range 0 n) = nat n"
  by (simp add: py_range_def)

lemma nth_py_range: "k < nat n \<Longrightarrow> py_range 0 n ! k = int k"
  by (simp add: py_range_def)

lemma window_frames_map:
  "window_frames img height = map (window_frame img height) (py_range 0 (im_width img - 8 + 1))"
  by (simp add: window_frames_def fold_append_map)

lemma length_window_frames: "length (window_frames img height) = nat (im_width img - 7)"
  by (simp add: window_frames_map length_py_range)

lemma nth_window_frames:
  assumes "k < nat (im_width img - 7)"
  shows "window_frames img height ! k = window_frame img height (int k)"
  using assms by (simp add: window_frames_map length_py_range nth_py_range)

lemma window_frame_rows: "length (window_frame img height x) = nat height"
  by (simp add: window_frame_def np_array_def crop_def length_py_range)

lemma window_frame_cell:
  assumes "r < nat height" and "c < 8"
  shows "length (window_frame img height x ! r) = 8"
    and "window_frame img height x ! r ! c =
           (if getpixel (crop img (x, 0, x + 8, height)) (int c) (int r) > 128 then 1 else 0)"
  using assms
  by (simp_all add: window_frame_def np_array_def crop_def length_py_range nth_py_range)

lemma crop_inside:
  assumes "0 \<le> x + a" and "x + a < im_width img" and "0 \<le> b" and "b < im_height img"
  shows "getpixel (crop img (x, 0, x + 8, h)) a b = getpixel img (x + a) b"
  using assms by (simp add: crop_def)

lemma scaled_strip_size:
  assumes "textbbox lib text = (x0, y0, x1, y1)"
  shows "im_width (scaled_strip lib text height) = x1 - x0 + 8"
    and "im_height (scaled_strip lib text height) = height"
  using assms
  by (simp_all add: scaled_strip_def Let_def resize_def draw_text_def Image_new_def)

lemma im_height_scaled_strip: "im_height (scaled_strip lib text height) = height"
  by (cases "textbbox lib text") (simp add: scaled_strip_size)

lemma text_to_frames_pause:
  assumes "text \<noteq> []" and "window_frames (scaled_strip lib text height) height \<noteq> []"
  shows "text_to_frames lib text height =
           window_frames (scaled_strip lib text height) height @
             [last (window_frames (scaled_strip lib text height) height)]"
  using assms by (simp add: text_to_frames_def Let_def)

subsection \<open>The sliding window\<close>

text \<open>
  Claim C5. For a non-empty text whose scaled strip is \<open>W \<ge> 8\<close> pixels wide, the window
  loop of \<open>text_to_frames\<close> yields exactly \<open>W - 7\<close> frames, one for each \<open>x\<close> from 0 to
  \<open>W - 8\<close> in this order. Frame \<open>x\<close> has \<open>height\<close> rows of 8 cells (8 rows at the default
  height 8), and its cell \<open>(r, c)\<close> is 1 exactly when pixel \<open>(x + c, r)\<close> of the strip is
  greater than 128. The result of \<open>text_to_frames\<close> is these frames followed by the pause
  frame.
\<close>

theorem window_frames_slide:
  assumes "text \<noteq> []" and "8 \<le> im_width (scaled_strip lib text height)"
  shows "let strip = scaled_strip lib text height;
             frames = window_frames strip height
         in length frames = nat (im_width strip - 7) \<and>
            (\<forall>x < nat (im_width strip - 7).
               length (frames ! x) = nat height \<and>
               (\<forall>r < nat height. length (frames ! x ! r) = 8 \<and>
                  (\<forall>c < 8. frames ! x ! r ! c =
                     (if getpixel strip (int x + int c) (int r) > 128 then 1 else 0)))) \<and>
            text_to_frames lib text height = frames @ [last frames]"
proof -
  let ?strip = "scaled_strip lib text height"
  let ?frames = "window_frames ?strip height"
  have count: "length ?frames = nat (im_width ?strip - 7)"
    by (rule length_window_frames)
  have cell: "?frames ! x ! r ! c = (if getpixel ?strip (int x + int c) (int r) > 128 then 1 else 0)"
    and row: "length (?frames ! x ! r) = 8"
    if "x < nat (im_width ?strip - 7)" and "r < nat height" and "c < 8" for x r c
  proof -
    have frame: "?frames ! x = window_frame ?strip height (int x)"
      using that(1) by (rule nth_window_frames)
    have "int x + int c < im_width ?strip" using that(1,3) by linarith
    moreover have "int r < im_height ?strip"
      using that(2) by (simp add: im_height_scaled_strip)
    ultimately have "getpixel (crop ?strip (int x, 0, int x + 8, height)) (int c) (int r) =
        getpixel ?strip (int x + int c) (int r)"
      by (intro crop_inside) simp_all
    then show "?frames ! x ! r ! c =
        (if getpixel ?strip (int x + int c) (int r) > 128 then 1 else 0)"
      unfolding frame using window_frame_cell(2) [OF that(2,3)] by simp
    show "length (?frames ! x ! r) = 8"
      unfolding frame using that(2,3) by (rule window_frame_cell(1))
  qed
  have rows: "length (?frames ! x) = nat height" if "x < nat (im_width ?strip - 7)" for x
    using nth_window_frames [OF that] by (simp add: window_frame_rows)
  have "?frames \<noteq> []" using count assms(2) by auto
  then have "text_to_frames lib text height = ?frames @ [last ?frames]"
    using assms(1) by (intro text_to_frames_pause)
  moreover have "\<forall>x < nat (im_width ?strip - 7).
      length (?frames ! x) = nat height \<and>
      (\<forall>r < nat height. length (?frames ! x ! r) = 8 \<and>
         (\<forall>c < 8. ?frames ! x ! r ! c =
            (if getpixel ?strip (int x + int c) (int r) > 128 then 1 else 0)))"
  proof (intro allI impI conjI)
    fix x assume "x < nat (im_width ?strip - 7)"
    then show "length (?frames ! x) = nat height" by (rule rows)
  next
    fix x r assume "x < nat (im_width ?strip - 7)" and "r < nat height"
    then show "length (?frames ! x ! r) = 8" by (rule row [where c = 0]) simp
  next
    fix x r c assume "x < nat (im_width ?strip - 7)" and "r < nat height" and "c < (8::nat)"
    then show "?frames ! x ! r ! c =
        (if getpixel ?strip (int x + int c) (int r) > 128 then 1 else 0)"
      by (rule cell)
  qed
  ultimately show ?thesis unfolding Let_def using count by blast
qed

theorem window_frames_slide_witness:
  "let lib = \<lparr>textbbox = (\<lambda>t. (0, 2, 6 * int (length t), 13)),
          text_pixels = (\<lambda>img xy t x y. if x < 5 \<and> (x = y - 3 \<or> x + y = 7 \<or> y = 6) then 255 else 0),
          bilinear = (\<lambda>img sz x y. getpixel img x (y * im_height img div snd sz)),
          luma = (\<lambda>p. fst p)\<rparr>;
       strip = scaled_strip lib ''A'' 8;
       frames = window_frames strip 8
   in ''A'' \<noteq> [] \<and> 8 \<le> im_width strip \<and> im_width strip = 14 \<and> length frames = 7 \<and>
      frames ! 1 = [[0, 0, 0, 0, 0, 0, 0, 0], [0, 0, 0, 0, 0, 0, 0, 0],
               [0, 0, 0, 0, 0, 0, 0, 0], [1, 0, 1, 0, 0, 0, 0, 0],
               [0, 1, 0, 0, 0, 0, 0, 0], [1, 1, 1, 1, 0, 0, 0, 0],
               [0, 0, 0, 0, 0, 0, 0, 0], [0, 0, 0, 0, 0, 0, 0, 0]] \<and>
      text_to_frames lib ''A'' 8 = frames @ [last frames]"
proof -
  let ?lib = "\<lparr>textbbox = (\<lambda>t. (0, 2, 6 * int (length t), 13)),
          text_pixels = (\<lambda>img xy t x y. if x < 5 \<and> (x = y - 3 \<or> x + y = 7 \<or> y = 6) then 255 else 0),
          bilinear = (\<lambda>img sz x y. getpixel img x (y * im_height img div snd sz)),
          luma = (\<lambda>p. fst p)\<rparr>"
  let ?strip = "scaled_strip ?lib ''A'' 8"
  let ?frames = "window_frames ?strip 8"
  have nonempty: "''A'' \<noteq> []" by simp
  have wide: "8 \<le> im_width ?strip" by code_simp
  have width: "im_width ?strip = 14" by code_simp
  have second: "?frames ! 1 = [[0, 0, 0, 0, 0, 0, 0, 0], [0, 0, 0, 0, 0, 0, 0, 0],
               [0, 0, 0, 0, 0, 0, 0, 0], [1, 0, 1, 0, 0, 0, 0, 0],
               [0, 1, 0, 0, 0, 0, 0, 0], [1, 1, 1, 1, 0, 0, 0, 0],
               [0, 0, 0, 0, 0, 0, 0, 0], [0, 0, 0, 0, 0, 0, 0, 0]]"
    by code_simp
  note slide = window_frames_slide [OF nonempty wide, unfolded Let_def]
  have count: "length ?frames = 7" using slide width by simp
  have result: "text_to_frames ?lib ''A'' 8 = ?frames @ [last ?frames]"
    using slide by blast
  show ?thesis unfolding Let_def by (rule conjI nonempty wide width count second result)+
qed

subsection \<open>The pause frame\<close>

text \<open>
  Claim C6. When the window loop has produced at least one frame, \<open>text_to_frames\<close>
  returns these frames followed by exactly one more, equal to the last of them: the
  result is not empty and its last two frames are equal.
\<close>

theorem text_to_frames_pause_frame:
  assumes "text \<noteq> []" and "window_frames (scaled_strip lib text height) height \<noteq> []"
  shows "let frames = window_frames (scaled_strip lib text height) height;
             result = text_to_frames lib text height
         in result = frames @ [last frames] \<and> length result = length frames + 1 \<and>
            result \<noteq> [] \<and> 2 \<le> length result \<and>
            result ! (length result - 1) = result ! (length result - 2)"
proof -
  let ?frames = "window_frames (scaled_strip lib text height) height"
  have result: "text_to_frames lib text height = ?frames @ [last ?frames]"
    using assms by (rule text_to_frames_pause)
  have pos: "0 < length ?frames" using assms(2) by simp
  have "(?frames @ [last ?frames]) ! (length ?frames - 1) = ?frames ! (length ?frames - 1)"
    using pos by (simp add: nth_append)
  also have "\<dots> = last ?frames" using assms(2) by (simp add: last_conv_nth)
  finally have "(?frames @ [last ?frames]) ! (length ?frames - 1) =
      (?frames @ [last ?frames]) ! length ?frames"
    by simp
  then have "(?frames @ [last ?frames]) ! (length (?frames @ [last ?frames]) - 1) =
      (?frames @ [last ?frames]) ! (length (?frames @ [last ?frames]) - 2)"
    by (simp add: numeral_2_eq_2)
  then show ?thesis unfolding Let_def result using pos by (simp add: Suc_le_eq)
qed

theorem text_to_frames_pause_frame_witness:
  "let lib = \<lparr>textbbox = (\<lambda>t. (0, 2, 6 * int (length t), 13)),
          text_pixels = (\<lambda>img xy t x y. if x < 5 \<and> (x = y - 3 \<or> x + y = 7 \<or> y = 6) then 255 else 0),
          bilinear = (\<lambda>img sz x y. getpixel img x (y * im_height img div snd sz)),
          luma = (\<lambda>p. fst p)\<rparr>;
       frames = window_frames (scaled_strip lib ''Hi'' 8) 8;
       result = text_to_frames lib ''Hi'' 8
   in ''Hi'' \<noteq> [] \<and> frames \<noteq> [] \<and> length frames = 13 \<and> length result = 14 \<and>
      result = frames @ [last frames] \<and> result ! 13 = result ! 12"
proof -
  let ?lib = "\<lparr>textbbox = (\<lambda>t. (0, 2, 6 * int (length t), 13)),
          text_pixels = (\<lambda>img xy t x y. if x < 5 \<and> (x = y - 3 \<or> x + y = 7 \<or> y = 6) then 255 else 0),
          bilinear = (\<lambda>img sz x y. getpixel img x (y * im_height img div snd sz)),
          luma = (\<lambda>p. fst p)\<rparr>"
  let ?frames = "window_frames (scaled_strip ?lib ''Hi'' 8) 8"
  let ?result = "text_to_frames ?lib ''Hi'' 8"
  have nonempty: "''Hi'' \<noteq> []" by simp
  have count: "length ?frames = 13" by (simp add: length_window_frames scaled_strip_size)
  then have some: "?frames \<noteq> []" by auto
  note pause = text_to_frames_pause_frame [OF nonempty some, unfolded Let_def]
  have result: "?result = ?frames @ [last ?frames]" using pause by blast
  have total: "length ?result = 14" using pause count by simp
  have "?result ! (length ?result - 1) = ?result ! (length ?result - 2)" using pause by blast
  then have same: "?result ! 13 = ?result ! 12" unfolding total by simp
  show ?thesis unfolding Let_def by (rule conjI nonempty some count total result same)+
qed

subsection \<open>The empty text\<close>

text \<open>Claim C8. \<open>text_to_frames\<close> of the empty string is the empty list of frames.\<close>

theorem text_to_frames_empty: "text_to_frames lib [] height = []"
  by (simp add: text_to_frames_def)

subsection \<open>A non-empty text gives at least two frames\<close>

text \<open>
  Claim C9. For a non-empty text whose measured box has width \<open>w \<ge> 0\<close>, the strip is
  \<open>w + 8 \<ge> 8\<close> pixels wide, the window loop gives \<open>w + 1\<close> frames, and \<open>text_to_frames\<close>
  returns \<open>w + 2\<close> frames: at least two, never none.
\<close>

theorem text_to_frames_at_least_two:
  assumes "text \<noteq> []" and "textbbox lib text = (x0, y0, x1, y1)" and "0 \<le> x1 - x0"
  shows "im_width (scaled_strip lib text height) = x1 - x0 + 8 \<and>
         8 \<le> im_width (scaled_strip lib text height) \<and>
         length (window_frames (scaled_strip lib text height) height) = nat (x1 - x0) + 1 \<and>
         length (text_to_frames lib text height) = nat (x1 - x0) + 2 \<and>
         2 \<le> length (text_to_frames lib text height) \<and>
         text_to_frames lib text height \<noteq> []"
proof -
  let ?frames = "window_frames (scaled_strip lib text height) height"
  have width: "im_width (scaled_strip lib text height) = x1 - x0 + 8"
    using assms(2) by (rule scaled_strip_size)
  have count: "length ?frames = nat (x1 - x0) + 1"
    using assms(3) by (simp add: length_window_frames width nat_add_distrib)
  then have "?frames \<noteq> []" by auto
  then have "text_to_frames lib text height = ?frames @ [last ?frames]"
    using assms(1) by (intro text_to_frames_pause)
  then have "length (text_to_frames lib text height) = nat (x1 - x0) + 2"
    using count by simp
  then show ?thesis using width count assms(3) by auto
qed

theorem text_to_frames_at_least_two_witness:
  "let lib = \<lparr>textbbox = (\<lambda>t. (0, 2, 6 * int (length t), 13)),
          text_pixels = (\<lambda>img xy t x y. if x < 5 \<and> (x = y - 3 \<or> x + y = 7 \<or> y = 6) then 255 else 0),
          bilinear = (\<lambda>img sz x y. getpixel img x (y * im_height img div snd sz)),
          luma = (\<lambda>p. fst p)\<rparr>
   in ''.'' \<noteq> [] \<and> textbbox lib ''.'' = (0, 2, 6, 13) \<and> (0::int) \<le> 6 - 0 \<and>
      im_width (scaled_strip lib ''.'' 8) = 14 \<and>
      length (text_to_frames lib ''.'' 8) = 8 \<and>
      2 \<le> length (text_to_frames lib ''.'' 8)"
proof -
  let ?lib = "\<lparr>textbbox = (\<lambda>t. (0, 2, 6 * int (length t), 13)),
          text_pixels = (\<lambda>img xy t x y. if x < 5 \<and> (x = y - 3 \<or> x + y = 7 \<or> y = 6) then 255 else 0),
          bilinear = (\<lambda>img sz x y. getpixel img x (y * im_height img div snd sz)),
          luma = (\<lambda>p. fst p)\<rparr>"
  have nonempty: "''.'' \<noteq> []" by simp
  have bbox: "textbbox ?lib ''.'' = (0, 2, 6, 13)" by simp
  have width: "(0::int) \<le> 6 - 0" by simp
  note two = text_to_frames_at_least_two [OF nonempty bbox width, of 8]
  have strip: "im_width (scaled_strip ?lib ''.'' 8) = 14" using two by simp
  have total: "length (text_to_frames ?lib ''.'' 8) = 8" using two by simp
  have least: "2 \<le> length (text_to_frames ?lib ''.'' 8)" using two by blast
  show ?thesis unfolding Let_def by (rule conjI nonempty bbox width strip total least)+
qed

section \<open>Properties of the image threshold\<close>

lemma rounding_error:
  assumes "rounds_to_nearest fl" and "1 / 256 \<le> x" and "x \<le> 1"
  shows "\<bar>float32 fl x - x\<bar> \<le> x / 16777216"
    and "\<bar>float64 fl x - x\<bar> \<le> x / 9007199254740992"
proof -
  have "(2::real) ^ 24 = 16777216" and "(2::real) ^ 53 = 9007199254740992" by simp_all
  then have "\<forall>x. 1 / 256 \<le> x \<and> x \<le> 1 \<longrightarrow> \<bar>float32 fl x - x\<bar> \<le> x / 16777216"
    and "\<forall>x. 1 / 256 \<le> x \<and> x \<le> 1 \<longrightarrow> \<bar>float64 fl x - x\<bar> \<le> x / 9007199254740992"
    using assms(1) unfolding rounds_to_nearest_def by metis+
  then show "\<bar>float32 fl x - x\<bar> \<le> x / 16777216"
    and "\<bar>float64 fl x - x\<bar> \<le> x / 9007199254740992"
    using assms(2,3) by blast+
qed

lemma threshold_near_0_7:
  assumes "rounds_to_nearest fl"
  shows "6999 / 10000 < float32 fl (float64 fl (7 / 10))"
    and "float32 fl (float64 fl (7 / 10)) < 7001 / 10000"
proof -
  let ?d = "float64 fl (7 / 10)"
  have "\<bar>?d - 7 / 10\<bar> \<le> (7 / 10) / 9007199254740992"
    by (rule rounding_error(2) [OF assms]) simp_all
  then have d: "69999 / 100000 \<le> ?d" "?d \<le> 70001 / 100000"
    by linarith+
  then have "1 / 256 \<le> ?d" and "?d \<le> 1" by linarith+
  then have "\<bar>float32 fl ?d - ?d\<bar> \<le> ?d / 16777216"
    by (rule rounding_error(1) [OF assms])
  with d show "6999 / 10000 < float32 fl ?d" and "float32 fl ?d < 7001 / 10000"
    by linarith+
qed

lemma float32_intensity:
  fixes v :: nat
  assumes "rounds_to_nearest fl" and "v \<le> 255"
  shows "v \<le> 178 \<Longrightarrow> float32 fl (real v / 255) < 6999 / 10000"
    and "179 \<le> v \<Longrightarrow> 7001 / 10000 < float32 fl (real v / 255)"
proof -
  let ?x = "real v / 255"
  have near: "\<bar>float32 fl ?x - ?x\<bar> \<le> ?x / 16777216" if "1 \<le> v"
  proof -
    have "1 \<le> real v" and "real v \<le> 255" using that assms(2) by simp_all
    then have "1 / 256 \<le> ?x" and "?x \<le> 1" by simp_all
    then show ?thesis by (rule rounding_error(1) [OF assms(1)])
  qed
  show "float32 fl ?x < 6999 / 10000" if "v \<le> 178"
  proof (cases "v = 0")
    case True
    then show ?thesis using assms(1) by (simp add: rounds_to_nearest_def)
  next
    case False
    then have "\<bar>float32 fl ?x - ?x\<bar> \<le> ?x / 16777216" using near by simp
    moreover have "?x \<le> 178 / 255" using that by simp
    moreover have "0 \<le> ?x" by simp
    ultimately show ?thesis by linarith
  qed
  show "7001 / 10000 < float32 fl ?x" if "179 \<le> v"
  proof -
    have "\<bar>float32 fl ?x - ?x\<bar> \<le> ?x / 16777216" using near that by simp
    moreover have "179 / 255 \<le> ?x" using that by simp
    moreover have "?x \<le> 1" using assms(2) by simp
    ultimately show ?thesis by linarith
  qed
qed

lemma lit_iff_intensity:
  fixes v :: nat
  assumes "rounds_to_nearest fl" and "v \<le> 255"
  shows "float32 fl (real v / 255) < float32 fl (float64 fl (7 / 10)) \<longleftrightarrow> real v / 255 < 7 / 10"
proof (cases "v \<le> 178")
  case True
  then have "real v \<le> 178" by simp
  then have "real v / 255 < 7 / 10" by simp
  moreover have "float32 fl (real v / 255) < float32 fl (float64 fl (7 / 10))"
    using float32_intensity(1) [OF assms True] threshold_near_0_7(1) [OF assms(1)]
    by linarith
  ultimately show ?thesis by simp
next
  case False
  then have high: "179 \<le> v" by simp
  then have "179 \<le> real v" by simp
  then have "\<not> real v / 255 < 7 / 10" by simp
  moreover have "\<not> float32 fl (real v / 255) < float32 fl (float64 fl (7 / 10))"
    using float32_intensity(2) [OF assms high] threshold_near_0_7(2) [OF assms(1)]
    by linarith
  ultimately show ?thesis by simp
qed

lemma lit_iff_below_0_7:
  fixes p :: "8 word"
  assumes "rounds_to_nearest fl"
  shows "float32 fl (real (unat p) / 255) < float32 fl (float64 fl (7 / 10)) \<longleftrightarrow>
         real (unat p) / 255 < 7 / 10"
proof -
  have "unat p < 2 ^ LENGTH(8)" by (rule unsigned_less)
  then have "unat p \<le> 255" by simp
  with assms show ?thesis by (rule lit_iff_intensity)
qed

lemma image_to_8x8_rows:
  "length (image_to_8x8 fl lib pic) = 8"
  "r < 8 \<Longrightarrow> length (image_to_8x8 fl lib pic ! r) = 8"
  by (simp_all add: image_to_8x8_def Let_def np_array_def resize_def length_py_range nth_py_range)

lemma image_to_8x8_cell:
  assumes "r < 8" and "c < 8"
  shows "image_to_8x8 fl lib pic ! r ! c =
     (if float32 fl (real (unat (getpixel (resize lib (convert_L lib pic) (8, 8)) (int c) (int r))) / 255)
           < float32 fl (float64 fl (7 / 10))
      then 1 else 0)"
  using assms
  by (simp add: image_to_8x8_def Let_def np_array_def resize_def length_py_range nth_py_range)

lemma matrix_8x8_eqI:
  assumes "length a = 8" and "\<And>r. r < 8 \<Longrightarrow> length (a ! r) = 8"
    and "\<And>r c. r < 8 \<Longrightarrow> c < 8 \<Longrightarrow> a ! r ! c = v"
  shows "a = replicate 8 (replicate 8 v)"
proof (rule nth_equalityI)
  show "length a = length (replicate 8 (replicate 8 v))" using assms(1) by simp
next
  fix r assume "r < length a"
  then have r: "r < 8" using assms(1) by simp
  have "a ! r = replicate 8 v"
  proof (rule nth_equalityI)
    show "length (a ! r) = length (replicate 8 v)" using assms(2) [OF r] by simp
  next
    fix c assume "c < length (a ! r)"
    then have "c < 8" using assms(2) [OF r] by simp
    then show "a ! r ! c = replicate 8 v ! c" using assms(3) [OF r] by simp
  qed
  then show "a ! r = replicate 8 (replicate 8 v) ! r" using r by simp
qed

lemma resize_uniform_pixel:
  assumes "keeps_uniform lib" and "uniform img v" and "r < 8" and "c < 8"
  shows "getpixel (resize lib img (8, 8)) (int c) (int r) = v"
proof -
  have "uniform (resize lib img (8, 8)) v"
    using assms(1,2) unfolding keeps_uniform_def by simp
  moreover have "im_width (resize lib img (8, 8)) = 8" and "im_height (resize lib img (8, 8)) = 8"
    by (simp_all add: resize_def)
  ultimately show ?thesis using assms(3,4) unfolding uniform_def by simp
qed

subsection \<open>Ink is darker than 0.7\<close>

text \<open>
  Claim C7. \<open>image_to_8x8\<close> returns an 8x8 matrix of cells 0 and 1 in which cell
  \<open>(r, c)\<close> is 1 exactly when the pixel \<open>(c, r)\<close> of the image resized to 8x8, divided by
  255, is less than 0.7 (a pixel value of 178 or less): the \<open>float32\<close> rounding of the
  division and of the constant cannot change the comparison for a pixel of one byte.
  When the resize keeps a uniform image uniform, a white image (every pixel 255) gives
  the all-zero matrix and a black image (every pixel 0) the all-one matrix. An image of
  mode \<open>L\<close> is its own gray conversion.
\<close>

theorem image_to_8x8_threshold:
  assumes "rounds_to_nearest fl"
  shows "let small = resize lib (convert_L lib pic) (8, 8);
             mat = image_to_8x8 fl lib pic
         in np_shape mat = Some [8, 8] \<and> binary mat \<and>
            (\<forall>r < 8. \<forall>c < 8.
               (mat ! r ! c = 1) = (real (unat (getpixel small (int c) (int r))) / 255 < 7 / 10)) \<and>
            (keeps_uniform lib \<and> uniform (convert_L lib pic) 255 \<longrightarrow>
               mat = replicate 8 (replicate 8 0)) \<and>
            (keeps_uniform lib \<and> uniform (convert_L lib pic) 0 \<longrightarrow>
               mat = replicate 8 (replicate 8 1)) \<and>
            (\<forall>img. convert_L lib (ModeL img) = img)"
proof -
  let ?small = "resize lib (convert_L lib pic) (8, 8)"
  let ?mat = "image_to_8x8 fl lib pic"
  have cell: "?mat ! r ! c =
      (if real (unat (getpixel ?small (int c) (int r))) / 255 < 7 / 10 then 1 else 0)"
    if "r < 8" "c < 8" for r c
    unfolding image_to_8x8_cell [OF that] lit_iff_below_0_7 [OF assms] by (rule refl)
  have len: "length ?mat = 8" by (rule image_to_8x8_rows)
  have row: "length (?mat ! r) = 8" if "r < 8" for r using that by (rule image_to_8x8_rows)
  have rows: "\<forall>row \<in> set ?mat. length row = 8"
  proof
    fix row assume "row \<in> set ?mat"
    then obtain r where "r < length ?mat" and "row = ?mat ! r" by (metis in_set_conv_nth)
    then show "length row = 8" using len row by simp
  qed
  have shape: "np_shape ?mat = Some [8, 8]"
    using len rows by (simp add: np_shape_rows_cols)
  have bin: "binary ?mat"
    unfolding binary_def
  proof (intro ballI)
    fix row v assume "row \<in> set ?mat" and v: "v \<in> set row"
    then obtain r where r: "r < 8" and at: "row = ?mat ! r"
      using len by (metis in_set_conv_nth)
    from v obtain c where "c < length row" and "v = row ! c" by (metis in_set_conv_nth)
    then have "c < 8" and "v = ?mat ! r ! c" using r at row by simp_all
    then show "v = 0 \<or> v = 1" using r cell by simp
  qed
  have lit: "(?mat ! r ! c = 1) = (real (unat (getpixel ?small (int c) (int r))) / 255 < 7 / 10)"
    if "r < 8" "c < 8" for r c
    unfolding cell [OF that] by simp
  have white: "?mat = replicate 8 (replicate 8 0)"
    if "keeps_uniform lib \<and> uniform (convert_L lib pic) 255"
  proof (rule matrix_8x8_eqI [OF len row])
    fix r c :: nat assume rc: "r < 8" "c < 8"
    have "getpixel ?small (int c) (int r) = 255"
      using that rc by (intro resize_uniform_pixel) simp_all
    then show "?mat ! r ! c = 0" unfolding cell [OF rc] by simp
  qed
  have black: "?mat = replicate 8 (replicate 8 1)"
    if "keeps_uniform lib \<and> uniform (convert_L lib pic) 0"
  proof (rule matrix_8x8_eqI [OF len row])
    fix r c :: nat assume rc: "r < 8" "c < 8"
    have "getpixel ?small (int c) (int r) = 0"
      using that rc by (intro resize_uniform_pixel) simp_all
    then show "?mat ! r ! c = 1" unfolding cell [OF rc] by simp
  qed
  have "convert_L lib (ModeL img) = img" for img by (simp add: convert_L_def)
  with shape bin lit white black show ?thesis unfolding Let_def by blast
qed


theorem image_to_8x8_threshold_witness:
  "let fl = \<lparr>float32 = (\<lambda>x. x), float64 = (\<lambda>x. x)\<rparr>;
       lib = \<lparr>textbbox = (\<lambda>t. (0, 0, 6 * int (length t), 11)),
              text_pixels = (\<lambda>img xy t x y. 0),
              bilinear = (\<lambda>img sz x y.
                getpixel img (x * im_width img div fst sz) (y * im_height img div snd sz)),
              luma = (\<lambda>p. fst p)\<rparr>;
       white = ModeL \<lparr>im_width = 256, im_height = 256, getpixel = (\<lambda>x y. 255)\<rparr>;
       black = ModeL \<lparr>im_width = 256, im_height = 256, getpixel = (\<lambda>x y. 0)\<rparr>;
       ramp = ModeL \<lparr>im_width = 8, im_height = 8, getpixel = (\<lambda>x y. word_of_int (172 + x + y))\<rparr>
   in rounds_to_nearest fl \<and> keeps_uniform lib \<and>
      uniform (convert_L lib white) 255 \<and> image_to_8x8 fl lib white = replicate 8 (replicate 8 0) \<and>
      uniform (convert_L lib black) 0 \<and> image_to_8x8 fl lib black = replicate 8 (replicate 8 1) \<and>
      image_to_8x8 fl lib ramp = 
        [[1, 1, 1, 1, 1, 1, 1, 0],
         [1, 1, 1, 1, 1, 1, 0, 0],
         [1, 1, 1, 1, 1, 0, 0, 0],
         [1, 1, 1, 1, 0, 0, 0, 0],
         [1, 1, 1, 0, 0, 0, 0, 0],
         [1, 1, 0, 0, 0, 0, 0, 0],
         [1, 0, 0, 0, 0, 0, 0, 0],
         [0, 0, 0, 0, 0, 0, 0, 0]]"
proof -
  let ?fl = "\<lparr>float32 = (\<lambda>x. x), float64 = (\<lambda>x. x)\<rparr> :: floats"
  let ?lib = "\<lparr>textbbox = (\<lambda>t. (0, 0, 6 * int (length t), 11)),
              text_pixels = (\<lambda>img xy t x y. 0),
              bilinear = (\<lambda>img sz x y.
                getpixel img (x * im_width img div fst sz) (y * im_height img div snd sz)),
              luma = (\<lambda>p. fst p)\<rparr> :: pil"
  let ?white = "ModeL \<lparr>im_width = 256, im_height = 256, getpixel = (\<lambda>x y. 255)\<rparr>"
  let ?black = "ModeL \<lparr>im_width = 256, im_height = 256, getpixel = (\<lambda>x y. 0)\<rparr>"
  let ?ramp = "ModeL \<lparr>im_width = 8, im_height = 8, getpixel = (\<lambda>x y. word_of_int (172 + x + y))\<rparr>"
  have exact: "rounds_to_nearest ?fl" by (simp add: rounds_to_nearest_def)
  have inside: "0 \<le> x * w div n \<and> x * w div n < w"
    if "0 < w" "0 < n" "0 \<le> x" "x < n" for x w n :: int
  proof -
    have below: "x * w < n * w" using that by simp
    have "x * w div n < w"
    proof (rule ccontr)
      assume "\<not> x * w div n < w"
      then have "w \<le> x * w div n" by simp
      then have "n * w \<le> n * (x * w div n)" using that(2) by (simp add: mult_left_mono)
      moreover have "0 \<le> x * w mod n" using that(2) by simp
      moreover have "n * (x * w div n) + x * w mod n = x * w" by (rule mult_div_mod_eq)
      ultimately show False using below by linarith
    qed
    moreover have "0 \<le> x * w div n" using that by (simp add: pos_imp_zdiv_nonneg_iff)
    ultimately show ?thesis by simp
  qed
  have keeps: "keeps_uniform ?lib"
    unfolding keeps_uniform_def uniform_def by (simp add: resize_def inside)
  have is_white: "uniform (convert_L ?lib ?white) 255"
    by (simp add: uniform_def convert_L_def)
  have is_black: "uniform (convert_L ?lib ?black) 0"
    by (simp add: uniform_def convert_L_def)
  have zeros: "image_to_8x8 ?fl ?lib ?white = replicate 8 (replicate 8 0)"
    using image_to_8x8_threshold [OF exact, of ?lib ?white, unfolded Let_def] keeps is_white
    by blast
  have ones: "image_to_8x8 ?fl ?lib ?black = replicate 8 (replicate 8 1)"
    using image_to_8x8_threshold [OF exact, of ?lib ?black, unfolded Let_def] keeps is_black
    by blast
  have columns: "py_range 0 8 = [0, 1, 2, 3, 4, 5, 6, 7]" by code_simp
  have edge: "image_to_8x8 ?fl ?lib ?ramp = 
        [[1, 1, 1, 1, 1, 1, 1, 0],
         [1, 1, 1, 1, 1, 1, 0, 0],
         [1, 1, 1, 1, 1, 0, 0, 0],
         [1, 1, 1, 1, 0, 0, 0, 0],
         [1, 1, 1, 0, 0, 0, 0, 0],
         [1, 1, 0, 0, 0, 0, 0, 0],
         [1, 0, 0, 0, 0, 0, 0, 0],
         [0, 0, 0, 0, 0, 0, 0, 0]]"
    by (simp add: image_to_8x8_def Let_def np_array_def columns resize_def convert_L_def)
  show ?thesis unfolding Let_def by (rule conjI exact keeps is_white zeros is_black ones edge)+
qed

end
